theory Spec2Isabelle
  imports Complex_Main "HOL-Library.AList"
begin

section \<open>Stage timers of \<^verbatim>\<open>deepsparse/timing/pipeline_timer.py\<close>\<close>

text \<open>
  Python's \<^verbatim>\<open>dict\<close> keeps its keys in insertion order and holds each key once.
  It is modelled as an association list: \<open>getitem\<close> is \<^verbatim>\<open>d[k]\<close> (raising
  \<^verbatim>\<open>KeyError\<close> on a missing key), \<open>setitem\<close> is \<^verbatim>\<open>d[k] = v\<close> (replacing in place
  or appending a new key at the end), \<open>contains\<close> is \<^verbatim>\<open>k in d\<close>.

  Timestamps and durations are Python floats; they are modelled as real numbers, so the
  rounding of float arithmetic is left out. Each reading of \<^verbatim>\<open>time.perf_counter()\<close>
  is an explicit argument \<open>now\<close> of the operation that takes it.

  A method that mutates its object returns the outcome of the call (\<open>Inl\<close> the exception
  raised, \<open>Inr\<close> the returned value) together with the object as the call leaves it,
  also when it raises.
\<close>

type_synonym stage = string

type_synonym 'v dict = "(stage \<times> 'v) list"

datatype error = ValueError | KeyError | ZeroDivisionError | IndexError

definition contains :: "'v dict \<Rightarrow> stage \<Rightarrow> bool" where
  "contains d k = (map_of d k \<noteq> None)"

definition getitem :: "'v dict \<Rightarrow> stage \<Rightarrow> error + 'v" where
  "getitem d k = (case map_of d k of None \<Rightarrow> Inl KeyError | Some v \<Rightarrow> Inr v)"

definition setitem :: "'v dict \<Rightarrow> stage \<Rightarrow> 'v \<Rightarrow> 'v dict" where
  "setitem d k v = AList.update k v d"

text \<open>
  A dict comprehension \<^verbatim>\<open>{k: f(k) for k in ks}\<close>: the keys are visited in order, the
  first \<open>f k\<close> that raises ends the comprehension with its exception.
\<close>

fun dict_comp :: "(stage \<Rightarrow> error + 'v) \<Rightarrow> 'v dict \<Rightarrow> stage list \<Rightarrow> error + 'v dict" where
  "dict_comp f acc [] = Inr acc"
| "dict_comp f acc (k # ks) =
     (case f k of
        Inl e \<Rightarrow> Inl e
      | Inr v \<Rightarrow> dict_comp f (setitem acc k v) ks)"

subsection \<open>\<^verbatim>\<open>class InferenceTimer\<close>\<close>

record InferenceTimer =
  staged_start_times :: "real list dict"
  staged_stop_times :: "real list dict"

text \<open>\<^verbatim>\<open>InferenceTimer.__init__\<close>: both dicts empty.\<close>

definition InferenceTimer_init :: InferenceTimer where
  "InferenceTimer_init = \<lparr>staged_start_times = [], staged_stop_times = []\<rparr>"

definition InferenceTimer_stages :: "InferenceTimer \<Rightarrow> stage list" where
  "InferenceTimer_stages it = map fst (staged_start_times it)"

definition clear :: "InferenceTimer \<Rightarrow> InferenceTimer" where
  "clear it = it\<lparr>staged_start_times := [], staged_stop_times := []\<rparr>"

definition has_stage :: "InferenceTimer \<Rightarrow> stage \<Rightarrow> bool" where
  "has_stage it stage = (stage \<in> set (InferenceTimer_stages it))"

text \<open>
  \<^verbatim>\<open>start\<close>: a stage not seen before gets two empty lists; the call raises when the
  stage has a start without its stop, and appends the clock reading otherwise.
\<close>

definition start :: "InferenceTimer \<Rightarrow> stage \<Rightarrow> real \<Rightarrow> (error + unit) \<times> InferenceTimer" where
  "start it stage now =
     (let it1 = (if \<not> contains (staged_start_times it) stage
                 then it\<lparr>staged_start_times := setitem (staged_start_times it) stage [],
                         staged_stop_times := setitem (staged_stop_times it) stage []\<rparr>
                 else it)
      in case getitem (staged_start_times it1) stage of
           Inl e \<Rightarrow> (Inl e, it1)
         | Inr starts \<Rightarrow>
             (case getitem (staged_stop_times it1) stage of
                Inl e \<Rightarrow> (Inl e, it1)
              | Inr stops \<Rightarrow>
                  if length starts \<noteq> length stops then (Inl ValueError, it1)
                  else (Inr (), it1\<lparr>staged_start_times :=
                                      setitem (staged_start_times it1) stage (starts @ [now])\<rparr>)))"

text \<open>
  \<^verbatim>\<open>stop\<close>: raises for a stage that is not a key of the start times, and when the
  stage does not have exactly one start more than stops; appends the clock reading
  to the stop times otherwise.
\<close>

definition stop :: "InferenceTimer \<Rightarrow> stage \<Rightarrow> real \<Rightarrow> (error + unit) \<times> InferenceTimer" where
  "stop it stage now =
     (if \<not> contains (staged_start_times it) stage then (Inl ValueError, it)
      else case getitem (staged_start_times it) stage of
           Inl e \<Rightarrow> (Inl e, it)
         | Inr starts \<Rightarrow>
             (case getitem (staged_stop_times it) stage of
                Inl e \<Rightarrow> (Inl e, it)
              | Inr stops \<Rightarrow>
                  if length starts \<noteq> length stops + 1 then (Inl ValueError, it)
                  else (Inr (), it\<lparr>staged_stop_times :=
                                     setitem (staged_stop_times it) stage (stops @ [now])\<rparr>)))"

text \<open>
  \<^verbatim>\<open>stage_times\<close>: the list of \<^verbatim>\<open>stop[i] - start[i]\<close> over the indices of the start
  times, once both lists have the same length.
\<close>

definition stage_times :: "InferenceTimer \<Rightarrow> stage \<Rightarrow> error + real list" where
  "stage_times it stage =
     (if \<not> contains (staged_start_times it) stage then Inl ValueError
      else case getitem (staged_start_times it) stage of
           Inl e \<Rightarrow> Inl e
         | Inr starts \<Rightarrow>
             (case getitem (staged_stop_times it) stage of
                Inl e \<Rightarrow> Inl e
              | Inr stops \<Rightarrow>
                  if length starts \<noteq> length stops then Inl ValueError
                  else Inr (map (\<lambda>i. stops ! i - starts ! i) [0..<length starts])))"

text \<open>\<^verbatim>\<open>sum(times) / len(times)\<close>, which raises on an empty list.\<close>

definition average :: "real list \<Rightarrow> error + real" where
  "average ts =
     (if length ts = 0 then Inl ZeroDivisionError
      else Inr (sum_list ts / real (length ts)))"

definition stage_average_time :: "InferenceTimer \<Rightarrow> stage \<Rightarrow> error + real" where
  "stage_average_time it stage =
     (case stage_times it stage of
        Inl e \<Rightarrow> Inl e
      | Inr ts \<Rightarrow> average ts)"

definition InferenceTimer_times :: "InferenceTimer \<Rightarrow> error + real dict" where
  "InferenceTimer_times it = dict_comp (stage_average_time it) [] (InferenceTimer_stages it)"

definition InferenceTimer_all_times :: "InferenceTimer \<Rightarrow> error + real list dict" where
  "InferenceTimer_all_times it = dict_comp (stage_times it) [] (InferenceTimer_stages it)"

subsection \<open>Sequences of calls on one \<^verbatim>\<open>InferenceTimer\<close>\<close>

datatype call = Start stage real | Stop stage real | Clear

fun apply_call :: "InferenceTimer \<Rightarrow> call \<Rightarrow> (error + unit) \<times> InferenceTimer" where
  "apply_call it (Start stage now) = start it stage now"
| "apply_call it (Stop stage now) = stop it stage now"
| "apply_call it Clear = (Inr (), clear it)"

text \<open>
  The calls are made one after the other on the same object, the caller catching the
  exception of a call that raises and going on: the result is the outcome of every call
  and the object after the last one.
\<close>

fun run_calls :: "InferenceTimer \<Rightarrow> call list \<Rightarrow> (error + unit) list \<times> InferenceTimer" where
  "run_calls it [] = ([], it)"
| "run_calls it (c # cs) =
     (case apply_call it c of
        (r, it') \<Rightarrow> (case run_calls it' cs of (rs, it'') \<Rightarrow> (r # rs, it'')))"

text \<open>The timestamps a stage has on record, and its starts still waiting for a stop.\<close>

definition num_starts :: "InferenceTimer \<Rightarrow> stage \<Rightarrow> nat" where
  "num_starts it stage =
     (case map_of (staged_start_times it) stage of None \<Rightarrow> 0 | Some starts \<Rightarrow> length starts)"

definition num_stops :: "InferenceTimer \<Rightarrow> stage \<Rightarrow> nat" where
  "num_stops it stage =
     (case map_of (staged_stop_times it) stage of None \<Rightarrow> 0 | Some stops \<Rightarrow> length stops)"

definition unmatched_starts :: "InferenceTimer \<Rightarrow> stage \<Rightarrow> int" where
  "unmatched_starts it stage = int (num_starts it stage) - int (num_stops it stage)"

text \<open>
  The duration samples of a stage, as the specification words them: one sample
  \<open>stop_time - start_time\<close> for each start that has its stop, none for a stage that is
  not on record.
\<close>

definition samples :: "InferenceTimer \<Rightarrow> stage \<Rightarrow> real list" where
  "samples it stage =
     (case (map_of (staged_start_times it) stage, map_of (staged_stop_times it) stage) of
        (Some starts, Some stops) \<Rightarrow> map (\<lambda>(a, b). b - a) (zip starts stops)
      | _ \<Rightarrow> [])"

subsection \<open>\<^verbatim>\<open>class PipelineTimer\<close>\<close>

record PipelineTimer =
  multi_inference :: bool
  enabled :: bool
  timers :: "InferenceTimer list"

text \<open>\<^verbatim>\<open>PipelineTimer.__init__(enabled=True, multi_inference=False)\<close>.\<close>

definition PipelineTimer_init :: "bool \<Rightarrow> bool \<Rightarrow> PipelineTimer" where
  "PipelineTimer_init en multi = \<lparr>multi_inference = multi, enabled = en, timers = []\<rparr>"

definition current_inference :: "PipelineTimer \<Rightarrow> InferenceTimer option" where
  "current_inference pt = (if timers pt \<noteq> [] then Some (last (timers pt)) else None)"

definition inferences :: "PipelineTimer \<Rightarrow> InferenceTimer list" where
  "inferences pt = timers pt"

text \<open>
  \<^verbatim>\<open>stages\<close> collects the stages of every timer in a Python set and lists it; the
  order of that list is not fixed by Python, the model lists each stage once.
\<close>

definition PipelineTimer_stages :: "PipelineTimer \<Rightarrow> stage list" where
  "PipelineTimer_stages pt = remdups (concat (map InferenceTimer_stages (timers pt)))"

text \<open>
  The inner loop of \<^verbatim>\<open>all_times\<close>:
  \<^verbatim>\<open>for stage, times in timer.all_times.items(): all_times[stage].extend(times)\<close>.
\<close>

fun extend_items :: "real list dict \<Rightarrow> real list dict \<Rightarrow> error + real list dict" where
  "extend_items acc [] = Inr acc"
| "extend_items acc ((stage, ts) # rest) =
     (case getitem acc stage of
        Inl e \<Rightarrow> Inl e
      | Inr cur \<Rightarrow> extend_items (setitem acc stage (cur @ ts)) rest)"

text \<open>The outer loop, \<^verbatim>\<open>for timer in self._timers\<close>.\<close>

fun extend_timers :: "real list dict \<Rightarrow> InferenceTimer list \<Rightarrow> error + real list dict" where
  "extend_timers acc [] = Inr acc"
| "extend_timers acc (timer # rest) =
     (case InferenceTimer_all_times timer of
        Inl e \<Rightarrow> Inl e
      | Inr d \<Rightarrow>
          (case extend_items acc d of
             Inl e \<Rightarrow> Inl e
           | Inr acc' \<Rightarrow> extend_timers acc' rest))"

definition PipelineTimer_all_times :: "PipelineTimer \<Rightarrow> error + real list dict" where
  "PipelineTimer_all_times pt =
     (case dict_comp (\<lambda>stage. Inr []) [] (PipelineTimer_stages pt) of
        Inl e \<Rightarrow> Inl e
      | Inr acc \<Rightarrow> extend_timers acc (timers pt))"

definition PipelineTimer_times :: "PipelineTimer \<Rightarrow> error + real dict" where
  "PipelineTimer_times pt =
     (case PipelineTimer_all_times pt of
        Inl e \<Rightarrow> Inl e
      | Inr all_times \<Rightarrow>
          dict_comp
            (\<lambda>stage. case getitem all_times stage of
                        Inl e \<Rightarrow> Inl e
                      | Inr ts \<Rightarrow> average ts)
            [] (PipelineTimer_stages pt))"

text \<open>
  \<^verbatim>\<open>_check_start_inference\<close>: \<^verbatim>\<open>not self.current_inference\<close> holds for \<^verbatim>\<open>None\<close> only,
  an \<^verbatim>\<open>InferenceTimer\<close> object being true in Python (the class defines neither
  \<^verbatim>\<open>__bool__\<close> nor \<^verbatim>\<open>__len__\<close>).
\<close>

definition check_start_inference :: "PipelineTimer \<Rightarrow> PipelineTimer" where
  "check_start_inference pt =
     (case current_inference pt of
        None \<Rightarrow> pt\<lparr>timers := timers pt @ [InferenceTimer_init]\<rparr>
      | Some _ \<Rightarrow> pt)"

definition reset :: "PipelineTimer \<Rightarrow> (error + unit) \<times> PipelineTimer" where
  "reset pt =
     (if \<not> enabled pt then (Inr (), pt)
      else let pt1 = check_start_inference pt
           in if multi_inference pt1
              then (Inr (), pt1\<lparr>timers := timers pt1 @ [InferenceTimer_init]\<rparr>)
              else (case timers pt1 of
                      [] \<Rightarrow> (Inl IndexError, pt1)
                    | t # ts \<Rightarrow> (Inr (), pt1\<lparr>timers := clear t # ts\<rparr>)))"

text \<open>
  \<^verbatim>\<open>self._timers[-1].start(stage)\<close>: the call goes to the last timer of the list, which
  is left as the call leaves it.
\<close>

definition start_inference_stage ::
    "PipelineTimer \<Rightarrow> stage \<Rightarrow> real \<Rightarrow> (error + unit) \<times> PipelineTimer" where
  "start_inference_stage pt stage now =
     (if \<not> enabled pt then (Inr (), pt)
      else let pt1 = check_start_inference pt
           in if timers pt1 = [] then (Inl IndexError, pt1)
              else (case start (last (timers pt1)) stage now of
                      (r, t') \<Rightarrow> (r, pt1\<lparr>timers := butlast (timers pt1) @ [t']\<rparr>)))"

definition stop_inference_stage ::
    "PipelineTimer \<Rightarrow> stage \<Rightarrow> real \<Rightarrow> (error + unit) \<times> PipelineTimer" where
  "stop_inference_stage pt stage now =
     (if \<not> enabled pt then (Inr (), pt)
      else let pt1 = check_start_inference pt
           in if timers pt1 = [] then (Inl IndexError, pt1)
              else (case stop (last (timers pt1)) stage now of
                      (r, t') \<Rightarrow> (r, pt1\<lparr>timers := butlast (timers pt1) @ [t']\<rparr>)))"

subsection \<open>Sequences of calls on one \<^verbatim>\<open>PipelineTimer\<close>\<close>

datatype pcall = Reset | StartStage stage real | StopStage stage real

fun apply_pcall :: "PipelineTimer \<Rightarrow> pcall \<Rightarrow> (error + unit) \<times> PipelineTimer" where
  "apply_pcall pt Reset = reset pt"
| "apply_pcall pt (StartStage stage now) = start_inference_stage pt stage now"
| "apply_pcall pt (StopStage stage now) = stop_inference_stage pt stage now"

fun run_pcalls :: "PipelineTimer \<Rightarrow> pcall list \<Rightarrow> (error + unit) list \<times> PipelineTimer" where
  "run_pcalls pt [] = ([], pt)"
| "run_pcalls pt (c # cs) =
     (case apply_pcall pt c of
        (r, pt') \<Rightarrow> (case run_pcalls pt' cs of (rs, pt'') \<Rightarrow> (r # rs, pt'')))"

subsection \<open>The invariant of the two dicts\<close>

text \<open>
  What \<^verbatim>\<open>start\<close>, \<^verbatim>\<open>stop\<close> and \<^verbatim>\<open>clear\<close> keep true of every stage: it is a key of both
  dicts or of neither, and a stage on record has at least one start and either as many
  stops as starts or one stop less.
\<close>

definition stage_ok :: "InferenceTimer \<Rightarrow> stage \<Rightarrow> bool" where
  "stage_ok it s =
     (case map_of (staged_start_times it) s of
        None \<Rightarrow> map_of (staged_stop_times it) s = None
      | Some ss \<Rightarrow>
          (case map_of (staged_stop_times it) s of
             None \<Rightarrow> False
           | Some ps \<Rightarrow> ss \<noteq> [] \<and> (length ss = length ps \<or> length ss = length ps + 1)))"

definition wf_timer :: "InferenceTimer \<Rightarrow> bool" where
  "wf_timer it = (\<forall>s. stage_ok it s)"

subsection \<open>Recording samples over several inferences\<close>

text \<open>
  A sample \<open>(stage, t0, t1)\<close> is recorded by starting the stage at reading \<open>t0\<close> and
  stopping it at reading \<open>t1\<close>: \<open>sample_calls\<close> on an \<^verbatim>\<open>InferenceTimer\<close>,
  \<open>record_samples\<close> through the \<^verbatim>\<open>PipelineTimer\<close>. \<open>inference_runs\<close> is one
  \<^verbatim>\<open>reset()\<close> before the samples of each inference, \<open>snapshot_of\<close> the timer that the
  samples of one inference leave when recorded on a fresh \<^verbatim>\<open>InferenceTimer\<close>, and
  \<open>durations\<close> the durations \<open>t1 - t0\<close> of the samples of one stage, in order.
\<close>

definition sample_calls :: "(stage \<times> real \<times> real) list \<Rightarrow> call list" where
  "sample_calls ss = concat (map (\<lambda>(s, t0, t1). [Start s t0, Stop s t1]) ss)"

definition record_samples :: "(stage \<times> real \<times> real) list \<Rightarrow> pcall list" where
  "record_samples ss = concat (map (\<lambda>(s, t0, t1). [StartStage s t0, StopStage s t1]) ss)"

definition inference_runs :: "(stage \<times> real \<times> real) list list \<Rightarrow> pcall list" where
  "inference_runs runs = concat (map (\<lambda>ss. Reset # record_samples ss) runs)"

definition snapshot_of :: "(stage \<times> real \<times> real) list \<Rightarrow> InferenceTimer" where
  "snapshot_of ss = snd (run_calls InferenceTimer_init (sample_calls ss))"

definition durations :: "(stage \<times> real \<times> real) list \<Rightarrow> stage \<Rightarrow> real list" where
  "durations ss stage = map (\<lambda>(s, t0, t1). t1 - t0) (filter (\<lambda>(s, t0, t1). s = stage) ss)"

text \<open>Every stage satisfies the invariant and has a stop for each of its starts.\<close>

definition all_balanced :: "InferenceTimer \<Rightarrow> bool" where
  "all_balanced it = (\<forall>s. stage_ok it s \<and> num_starts it s = num_stops it s)"

subsection \<open>Balanced timers and merged samples\<close>

text \<open>
  A timer is balanced when each stage on record satisfies the invariant and has a stop
  for every start. The merged samples of a stage, as the specification words them: the
  duration samples of the stage in every tracked timer, one timer after the other.
\<close>

definition balanced :: "InferenceTimer \<Rightarrow> bool" where
  "balanced it =
     (\<forall>s \<in> set (InferenceTimer_stages it). stage_ok it s \<and> num_starts it s = num_stops it s)"

definition merged_samples :: "PipelineTimer \<Rightarrow> stage \<Rightarrow> real list" where
  "merged_samples pt stage = concat (map (\<lambda>it. samples it stage) (timers pt))"

section \<open>Properties of \<^verbatim>\<open>InferenceTimer\<close>\<close>

lemmas dict_defs = contains_def getitem_def setitem_def

subsection \<open>The invariant is kept\<close>

lemma wf_timer_init: "wf_timer InferenceTimer_init"
  by (simp add: wf_timer_def stage_ok_def InferenceTimer_init_def)

lemma wf_timer_clear: "wf_timer (clear it)"
  by (simp add: wf_timer_def stage_ok_def clear_def)

lemma stage_ok_start:
  "stage_ok it stage \<Longrightarrow> stage_ok it s \<Longrightarrow> stage_ok (snd (start it stage now)) s"
  by (cases "s = stage")
     (auto simp: stage_ok_def start_def dict_defs update_conv' split: option.splits)

lemma stage_ok_stop:
  "stage_ok it stage \<Longrightarrow> stage_ok it s \<Longrightarrow> stage_ok (snd (stop it stage now)) s"
  by (cases "s = stage")
     (auto simp: stage_ok_def stop_def dict_defs update_conv' split: option.splits)

lemma wf_timer_apply_call: "wf_timer it \<Longrightarrow> wf_timer (snd (apply_call it c))"
  by (cases c)
     (simp_all add: wf_timer_def stage_ok_start stage_ok_stop wf_timer_clear [unfolded wf_timer_def])

lemma wf_timer_run_calls: "wf_timer it \<Longrightarrow> wf_timer (snd (run_calls it cs))"
proof (induction cs arbitrary: it)
  case Nil
  then show ?case by simp
next
  case (Cons c cs)
  from Cons.prems have "wf_timer (snd (apply_call it c))" by (rule wf_timer_apply_call)
  then have "wf_timer (snd (run_calls (snd (apply_call it c)) cs))" by (rule Cons.IH)
  then show ?case by (simp add: split_beta)
qed

lemma wf_timer_reachable: "wf_timer (snd (run_calls InferenceTimer_init cs))"
  by (rule wf_timer_run_calls [OF wf_timer_init])

lemma stage_ok_counts:
  "stage_ok it s \<Longrightarrow> num_stops it s \<le> num_starts it s \<and> num_starts it s \<le> num_stops it s + 1"
  unfolding stage_ok_def num_starts_def num_stops_def
  by (auto split: option.splits)

lemma stop_raises_unchanged: "stop it s now = (Inl e, it') \<Longrightarrow> it' = it"
  by (auto simp: stop_def split: if_splits sum.splits)

lemma stop_ok_counts:
  "stop it s now = (Inr (), it') \<Longrightarrow>
     num_starts it s = num_stops it s + 1 \<and>
     num_stops it' s = num_stops it s + 1 \<and> num_starts it' s = num_starts it s"
  by (auto simp: stop_def dict_defs num_starts_def num_stops_def update_conv'
      split: if_splits sum.splits option.splits)

lemma stage_ok_stop_no_unmatched:
  "stage_ok it s \<Longrightarrow> num_starts it s = num_stops it s \<Longrightarrow> stop it s now = (Inl ValueError, it)"
  unfolding stage_ok_def num_starts_def num_stops_def
  by (auto simp: stop_def dict_defs split: option.splits)

subsection \<open>Starting a stage twice\<close>

text \<open>
  C2, as stated: after \<^verbatim>\<open>start("x")\<close>, \<^verbatim>\<open>start("x")\<close>, \<^verbatim>\<open>stop("x")\<close> on a fresh timer,
  stage \<^verbatim>\<open>x\<close> has exactly one unmatched start and no average can be computed. The
  code does otherwise at the readings 1, 2 and 3: the second \<^verbatim>\<open>start\<close> is refused, the
  \<^verbatim>\<open>stop\<close> closes the first start, no start is left unmatched and the average is 2.
\<close>

theorem double_start_counterexample:
  "\<not> (unmatched_starts
        (snd (run_calls InferenceTimer_init [Start ''x'' 1, Start ''x'' 2, Stop ''x'' 3])) ''x'' = 1
      \<and> isl (stage_average_time
        (snd (run_calls InferenceTimer_init [Start ''x'' 1, Start ''x'' 2, Stop ''x'' 3])) ''x''))"
  by (simp add: InferenceTimer_init_def start_def stop_def stage_times_def stage_average_time_def
      average_def unmatched_starts_def num_starts_def num_stops_def dict_defs)

text \<open>
  C2, amended: on a fresh timer the first \<^verbatim>\<open>start(x)\<close> succeeds; a second \<^verbatim>\<open>start(x)\<close>
  with no \<^verbatim>\<open>stop(x)\<close> in between raises \<^verbatim>\<open>ValueError\<close> and leaves the timer as the first
  start left it, with one unmatched start and no average for the stage; a \<^verbatim>\<open>stop(x)\<close>
  after that succeeds and closes the first start, so that no start is unmatched and the
  average of the stage is the stop reading minus the first start reading.
\<close>

theorem double_start_then_stop:
  "(case run_calls InferenceTimer_init [Start x t1, Start x t2] of
      (rs, it) \<Rightarrow>
        rs = [Inr (), Inl ValueError] \<and>
        it = snd (run_calls InferenceTimer_init [Start x t1]) \<and>
        unmatched_starts it x = 1 \<and>
        stage_average_time it x = Inl ValueError) \<and>
   (case run_calls InferenceTimer_init [Start x t1, Start x t2, Stop x t3] of
      (rs, it) \<Rightarrow>
        rs = [Inr (), Inl ValueError, Inr ()] \<and>
        unmatched_starts it x = 0 \<and>
        stage_times it x = Inr [t3 - t1] \<and>
        stage_average_time it x = Inr (t3 - t1))"
  by (simp add: InferenceTimer_init_def start_def stop_def stage_times_def stage_average_time_def
      average_def unmatched_starts_def num_starts_def num_stops_def dict_defs)

subsection \<open>Stopping a stage that has no open start\<close>

text \<open>
  C3: on every timer that calls of \<^verbatim>\<open>start\<close>, \<^verbatim>\<open>stop\<close> and \<^verbatim>\<open>clear\<close> have produced from a
  fresh one, \<^verbatim>\<open>stop(stage)\<close> for a stage with as many stops as starts (none of either
  for a stage never started) raises \<^verbatim>\<open>ValueError\<close> and leaves the timer as it was, so
  no timestamp and no sample is recorded.
\<close>

theorem stop_without_unmatched_start_raises:
  assumes "it = snd (run_calls InferenceTimer_init cs)"
    and "num_starts it stage = num_stops it stage"
  shows "stop it stage now = (Inl ValueError, it)"
proof -
  have "wf_timer it" using assms(1) by (simp add: wf_timer_reachable)
  then have "stage_ok it stage" by (simp add: wf_timer_def)
  then show ?thesis using assms(2) by (rule stage_ok_stop_no_unmatched)
qed

theorem stop_without_unmatched_start_raises_witness:
  "stop (snd (run_calls InferenceTimer_init [Start ''x'' 1, Stop ''x'' 2])) ''x'' 3
     = (Inl ValueError, snd (run_calls InferenceTimer_init [Start ''x'' 1, Stop ''x'' 2])) \<and>
   num_starts (snd (run_calls InferenceTimer_init [Start ''x'' 1, Stop ''x'' 2])) ''x'' = 1 \<and>
   num_stops (snd (run_calls InferenceTimer_init [Start ''x'' 1, Stop ''x'' 2])) ''x'' = 1 \<and>
   stop (snd (run_calls InferenceTimer_init [Start ''x'' 1, Stop ''x'' 2])) ''y'' 3
     = (Inl ValueError, snd (run_calls InferenceTimer_init [Start ''x'' 1, Stop ''x'' 2]))"
proof -
  let ?it = "snd (run_calls InferenceTimer_init [Start ''x'' 1, Stop ''x'' 2])"
  have x: "num_starts ?it ''x'' = 1 \<and> num_stops ?it ''x'' = 1"
    by (simp add: InferenceTimer_init_def start_def stop_def num_starts_def num_stops_def dict_defs)
  have y: "num_starts ?it ''y'' = num_stops ?it ''y''"
    by (simp add: InferenceTimer_init_def start_def stop_def num_starts_def num_stops_def dict_defs)
  from x have x': "num_starts ?it ''x'' = num_stops ?it ''x''" by simp
  show ?thesis
    using stop_without_unmatched_start_raises [OF refl x', of 3]
      stop_without_unmatched_start_raises [OF refl y, of 3] x
    by simp
qed

subsection \<open>Stops never outnumber starts\<close>

text \<open>
  C4: after any sequence of \<^verbatim>\<open>start\<close>, \<^verbatim>\<open>stop\<close> and \<^verbatim>\<open>clear\<close> calls on a fresh timer (a
  call that raises is caught and the sequence goes on), every stage has at most as many
  stop timestamps as start timestamps. A further \<^verbatim>\<open>stop\<close> of the stage that raises
  records nothing; one that returns found exactly one start without its stop, and adds
  one stop timestamp and no start timestamp.
\<close>

theorem stops_never_exceed_starts:
  "num_stops (snd (run_calls InferenceTimer_init cs)) stage
     \<le> num_starts (snd (run_calls InferenceTimer_init cs)) stage \<and>
   (\<forall>now r it'. stop (snd (run_calls InferenceTimer_init cs)) stage now = (r, it') \<longrightarrow>
      (case r of
         Inl e \<Rightarrow> it' = snd (run_calls InferenceTimer_init cs)
       | Inr u \<Rightarrow>
           num_starts (snd (run_calls InferenceTimer_init cs)) stage
             = num_stops (snd (run_calls InferenceTimer_init cs)) stage + 1 \<and>
           num_stops it' stage = num_stops (snd (run_calls InferenceTimer_init cs)) stage + 1 \<and>
           num_starts it' stage = num_starts (snd (run_calls InferenceTimer_init cs)) stage))"
proof -
  define it where "it = snd (run_calls InferenceTimer_init cs)"
  have "wf_timer it" unfolding it_def by (rule wf_timer_reachable)
  then have ok: "stage_ok it stage" by (simp add: wf_timer_def)
  have le: "num_stops it stage \<le> num_starts it stage"
    using stage_ok_counts [OF ok] by simp
  have st: "case r of Inl e \<Rightarrow> it' = it
            | Inr u \<Rightarrow> num_starts it stage = num_stops it stage + 1 \<and>
                num_stops it' stage = num_stops it stage + 1 \<and>
                num_starts it' stage = num_starts it stage"
    if "stop it stage now = (r, it')" for now r it'
  proof (cases r)
    case (Inl e)
    with that show ?thesis by (simp add: stop_raises_unchanged)
  next
    case (Inr u)
    with that have "stop it stage now = (Inr (), it')" by simp
    from stop_ok_counts [OF this] Inr show ?thesis by simp
  qed
  from le st show ?thesis unfolding it_def by blast
qed

theorem stops_never_exceed_starts_witness:
  "num_stops (snd (run_calls InferenceTimer_init
       [Start ''x'' 1, Stop ''x'' 2, Stop ''x'' 3, Start ''x'' 4])) ''x'' = 1 \<and>
   num_starts (snd (run_calls InferenceTimer_init
       [Start ''x'' 1, Stop ''x'' 2, Stop ''x'' 3, Start ''x'' 4])) ''x'' = 2 \<and>
   fst (stop (snd (run_calls InferenceTimer_init
       [Start ''x'' 1, Stop ''x'' 2, Stop ''x'' 3, Start ''x'' 4])) ''x'' 5) = Inr () \<and>
   num_stops (snd (stop (snd (run_calls InferenceTimer_init
       [Start ''x'' 1, Stop ''x'' 2, Stop ''x'' 3, Start ''x'' 4])) ''x'' 5)) ''x'' = 2"
proof -
  define it where "it = snd (run_calls InferenceTimer_init
       [Start ''x'' 1, Stop ''x'' 2, Stop ''x'' 3, Start ''x'' 4])"
  define it' where "it' = snd (stop it ''x'' 5)"
  have n: "num_stops it ''x'' = 1"
    unfolding it_def
    by (simp add: InferenceTimer_init_def start_def stop_def num_stops_def dict_defs)
  have r: "fst (stop it ''x'' 5) = Inr ()"
    unfolding it_def
    by (simp add: InferenceTimer_init_def start_def stop_def dict_defs)
  then have s: "stop it ''x'' 5 = (Inr (), it')"
    by (simp add: prod_eq_iff it'_def)
  have "\<forall>now r it'. stop it ''x'' now = (r, it') \<longrightarrow>
      (case r of
         Inl e \<Rightarrow> it' = it
       | Inr u \<Rightarrow>
           num_starts it ''x'' = num_stops it ''x'' + 1 \<and>
           num_stops it' ''x'' = num_stops it ''x'' + 1 \<and>
           num_starts it' ''x'' = num_starts it ''x'')"
    unfolding it_def
    by (rule conjunct2 [OF stops_never_exceed_starts])
  then have "case (Inr ()::error + unit) of
         Inl e \<Rightarrow> it' = it
       | Inr u \<Rightarrow>
           num_starts it ''x'' = num_stops it ''x'' + 1 \<and>
           num_stops it' ''x'' = num_stops it ''x'' + 1 \<and>
           num_starts it' ''x'' = num_starts it ''x''"
    using s by blast
  then have "num_starts it ''x'' = 2 \<and> num_stops it' ''x'' = 2"
    using n by simp
  with n r show ?thesis
    unfolding it'_def it_def by simp
qed

subsection \<open>No average without a sample\<close>

text \<open>
  C8: for every timer and every stage that has no completed duration sample (the stage
  was never started, or its only start has no stop yet), \<^verbatim>\<open>stage_average_time\<close>
  raises an exception; it does not return a number.
\<close>

theorem stage_average_time_needs_sample:
  "samples it stage = [] \<Longrightarrow> isl (stage_average_time it stage)"
  by (auto simp: stage_average_time_def stage_times_def average_def samples_def dict_defs
      split: option.splits sum.splits if_splits)

theorem stage_average_time_needs_sample_witness:
  "samples InferenceTimer_init ''x'' = [] \<and>
   isl (stage_average_time InferenceTimer_init ''x'') \<and>
   samples (snd (start InferenceTimer_init ''x'' 1)) ''x'' = [] \<and>
   isl (stage_average_time (snd (start InferenceTimer_init ''x'' 1)) ''x'')"
proof -
  have a: "samples InferenceTimer_init ''x'' = []"
    by (simp add: samples_def InferenceTimer_init_def)
  have b: "samples (snd (start InferenceTimer_init ''x'' 1)) ''x'' = []"
    by (simp add: samples_def InferenceTimer_init_def start_def dict_defs)
  show ?thesis
    using a b stage_average_time_needs_sample [OF a] stage_average_time_needs_sample [OF b]
    by simp
qed

subsection \<open>Nested stages\<close>

text \<open>
  C9: for two different stages \<open>A\<close> and \<open>B\<close>, the calls \<^verbatim>\<open>start(B)\<close>, \<^verbatim>\<open>start(A)\<close>,
  \<^verbatim>\<open>stop(A)\<close>, \<^verbatim>\<open>stop(B)\<close> on a fresh timer all return, and afterwards each stage has
  exactly one duration sample, its own stop reading minus its own start reading.
\<close>

theorem nested_stages_independent:
  "A \<noteq> B \<Longrightarrow>
     (case run_calls InferenceTimer_init [Start B t1, Start A t2, Stop A t3, Stop B t4] of
        (rs, it) \<Rightarrow>
          rs = [Inr (), Inr (), Inr (), Inr ()] \<and>
          stage_times it A = Inr [t3 - t2] \<and>
          stage_times it B = Inr [t4 - t1])"
  by (simp add: InferenceTimer_init_def start_def stop_def stage_times_def dict_defs)

theorem nested_stages_independent_witness:
  "''a'' \<noteq> ''b'' \<and>
   fst (run_calls InferenceTimer_init
          [Start ''b'' 1, Start ''a'' 2, Stop ''a'' 5, Stop ''b'' 11])
     = [Inr (), Inr (), Inr (), Inr ()] \<and>
   stage_times (snd (run_calls InferenceTimer_init
          [Start ''b'' 1, Start ''a'' 2, Stop ''a'' 5, Stop ''b'' 11])) ''a'' = Inr [3] \<and>
   stage_times (snd (run_calls InferenceTimer_init
          [Start ''b'' 1, Start ''a'' 2, Stop ''a'' 5, Stop ''b'' 11])) ''b'' = Inr [10]"
proof -
  have ne: "''a'' \<noteq> ''b''" by simp
  show ?thesis
    using ne nested_stages_independent [OF ne, of 1 2 5 11]
    by (simp add: InferenceTimer_init_def start_def stop_def stage_times_def dict_defs)
qed

section \<open>Properties of \<^verbatim>\<open>PipelineTimer\<close>\<close>

subsection \<open>A disabled timer\<close>

text \<open>
  C10: on a \<^verbatim>\<open>PipelineTimer\<close> whose \<^verbatim>\<open>enabled\<close> flag is false, \<^verbatim>\<open>reset\<close>,
  \<^verbatim>\<open>start_inference_stage\<close> and \<^verbatim>\<open>stop_inference_stage\<close> return without raising and
  leave the whole object as it was, whatever the stage and whatever was called before.
\<close>

theorem disabled_is_noop:
  "\<not> enabled pt \<Longrightarrow>
     reset pt = (Inr (), pt) \<and>
     start_inference_stage pt stage now = (Inr (), pt) \<and>
     stop_inference_stage pt stage now = (Inr (), pt)"
  by (simp add: reset_def start_inference_stage_def stop_inference_stage_def)

theorem disabled_is_noop_witness:
  "\<not> enabled (PipelineTimer_init False True) \<and>
   run_pcalls (PipelineTimer_init False True) [StopStage ''x'' 1, StartStage ''x'' 2, Reset]
     = ([Inr (), Inr (), Inr ()], PipelineTimer_init False True)"
proof -
  have d: "\<not> enabled (PipelineTimer_init False True)"
    by (simp add: PipelineTimer_init_def)
  show ?thesis
    using d disabled_is_noop [OF d, of "''x''" 1] disabled_is_noop [OF d, of "''x''" 2]
    by simp
qed

subsection \<open>\<^verbatim>\<open>reset\<close>\<close>

lemma clear_is_init: "clear it = InferenceTimer_init"
  by (simp add: clear_def InferenceTimer_init_def)

lemma check_start_inference_timers:
  "timers (check_start_inference pt) = (if timers pt = [] then [InferenceTimer_init] else timers pt)"
  by (simp add: check_start_inference_def current_inference_def)

lemma check_start_inference_flags:
  "enabled (check_start_inference pt) = enabled pt \<and>
   multi_inference (check_start_inference pt) = multi_inference pt"
  by (simp add: check_start_inference_def split: option.splits)

lemma check_start_inference_eq:
  "check_start_inference pt =
     pt\<lparr>timers := (if timers pt = [] then [InferenceTimer_init] else timers pt)\<rparr>"
  by (simp add: check_start_inference_def current_inference_def)

text \<open>
  C5: on an enabled \<^verbatim>\<open>PipelineTimer\<close> \<^verbatim>\<open>reset\<close> returns without raising and changes
  neither flag. In multi-inference mode the timers it tracked stay as they were, at the
  front of the list, a fresh empty \<^verbatim>\<open>InferenceTimer\<close> is appended and is the current one
  afterwards (when no timer was tracked yet, \<^verbatim>\<open>_check_start_inference\<close> first creates
  one, so that two fresh timers are in the list). In single-inference mode the first
  timer of the list is cleared; when the list holds at most one timer, the list
  afterwards is one empty timer, with no stage on record.
\<close>

theorem reset_enabled:
  assumes "enabled pt"
  shows "fst (reset pt) = Inr () \<and>
    enabled (snd (reset pt)) = enabled pt \<and>
    multi_inference (snd (reset pt)) = multi_inference pt \<and>
    (multi_inference pt \<longrightarrow>
       timers (snd (reset pt))
         = (if timers pt = [] then [InferenceTimer_init] else timers pt) @ [InferenceTimer_init] \<and>
       current_inference (snd (reset pt)) = Some InferenceTimer_init \<and>
       take (length (timers pt)) (timers (snd (reset pt))) = timers pt) \<and>
    (\<not> multi_inference pt \<longrightarrow>
       timers (snd (reset pt))
         = (case timers pt of [] \<Rightarrow> [InferenceTimer_init] | t # ts \<Rightarrow> clear t # ts) \<and>
       (length (timers pt) \<le> 1 \<longrightarrow>
          timers (snd (reset pt)) = [InferenceTimer_init] \<and>
          current_inference (snd (reset pt)) = Some InferenceTimer_init \<and>
          InferenceTimer_stages (last (timers (snd (reset pt)))) = []))"
  using assms
  by (cases "timers pt")
     (auto simp: reset_def check_start_inference_eq current_inference_def Let_def
        clear_is_init InferenceTimer_init_def InferenceTimer_stages_def)

theorem reset_enabled_witness:
  "enabled \<lparr>multi_inference = True, enabled = True,
            timers = [\<lparr>staged_start_times = [(''x'', [1])],
                       staged_stop_times = [(''x'', [3])]\<rparr>]\<rparr> \<and>
   reset \<lparr>multi_inference = True, enabled = True,
          timers = [\<lparr>staged_start_times = [(''x'', [1])],
                     staged_stop_times = [(''x'', [3])]\<rparr>]\<rparr>
    = (Inr (), \<lparr>multi_inference = True, enabled = True,
          timers = [\<lparr>staged_start_times = [(''x'', [1])],
                     staged_stop_times = [(''x'', [3])]\<rparr>,
                    InferenceTimer_init]\<rparr>) \<and>
   reset \<lparr>multi_inference = False, enabled = True,
          timers = [\<lparr>staged_start_times = [(''x'', [1])],
                     staged_stop_times = [(''x'', [3])]\<rparr>]\<rparr>
    = (Inr (), \<lparr>multi_inference = False, enabled = True, timers = [InferenceTimer_init]\<rparr>)"
proof -
  let ?t = "\<lparr>staged_start_times = [(''x'', [1::real])], staged_stop_times = [(''x'', [3::real])]\<rparr>"
  let ?m = "\<lparr>multi_inference = True, enabled = True, timers = [?t]\<rparr>"
  let ?s = "\<lparr>multi_inference = False, enabled = True, timers = [?t]\<rparr>"
  have m: "enabled ?m" and s: "enabled ?s" by simp_all
  show ?thesis
    using m reset_enabled [OF m] reset_enabled [OF s]
    by (simp add: reset_def check_start_inference_def current_inference_def clear_def
        InferenceTimer_init_def)
qed

subsection \<open>The current timer and the first call\<close>

text \<open>
  C7, as stated for every \<^verbatim>\<open>PipelineTimer\<close>: when no snapshot exists, the first call of
  \<^verbatim>\<open>reset\<close>, \<^verbatim>\<open>start_inference_stage\<close> or \<^verbatim>\<open>stop_inference_stage\<close> creates one. On a
  disabled \<^verbatim>\<open>PipelineTimer\<close> each of the three calls leaves the list of timers empty
  and \<^verbatim>\<open>current_inference\<close> stays \<^verbatim>\<open>None\<close>.
\<close>

theorem first_call_counterexample:
  "current_inference (PipelineTimer_init False True) = None \<and>
   current_inference (snd (reset (PipelineTimer_init False True))) = None \<and>
   current_inference (snd (start_inference_stage (PipelineTimer_init False True) ''x'' 1)) = None \<and>
   current_inference (snd (stop_inference_stage (PipelineTimer_init False True) ''x'' 1)) = None"
  by (simp add: PipelineTimer_init_def current_inference_def reset_def
      start_inference_stage_def stop_inference_stage_def)

text \<open>
  C7, amended: \<^verbatim>\<open>current_inference\<close> is \<^verbatim>\<open>None\<close> when no timer is tracked and the last
  appended timer otherwise. On an enabled \<^verbatim>\<open>PipelineTimer\<close> that tracks no timer,
  \<^verbatim>\<open>reset\<close>, \<^verbatim>\<open>start_inference_stage\<close> and \<^verbatim>\<open>stop_inference_stage\<close> behave as they do
  on the same object with one fresh timer in its list: \<^verbatim>\<open>reset\<close> leaves two fresh timers
  in multi-inference mode and one in single-inference mode, \<^verbatim>\<open>start_inference_stage\<close>
  starts the stage on the new timer, and \<^verbatim>\<open>stop_inference_stage\<close> raises \<^verbatim>\<open>ValueError\<close>
  with the new timer left in the list. On a disabled \<^verbatim>\<open>PipelineTimer\<close> the three calls
  create nothing.
\<close>

theorem current_inference_and_first_call:
  "current_inference (pt\<lparr>timers := []\<rparr>) = None \<and>
   current_inference (pt\<lparr>timers := ts @ [t]\<rparr>) = Some t \<and>
   (enabled pt \<and> timers pt = [] \<longrightarrow>
      reset pt = reset (pt\<lparr>timers := [InferenceTimer_init]\<rparr>) \<and>
      start_inference_stage pt stage now
        = start_inference_stage (pt\<lparr>timers := [InferenceTimer_init]\<rparr>) stage now \<and>
      stop_inference_stage pt stage now
        = stop_inference_stage (pt\<lparr>timers := [InferenceTimer_init]\<rparr>) stage now \<and>
      timers (snd (reset pt))
        = (if multi_inference pt then [InferenceTimer_init, InferenceTimer_init]
           else [InferenceTimer_init]) \<and>
      start_inference_stage pt stage now
        = (Inr (), pt\<lparr>timers := [snd (start InferenceTimer_init stage now)]\<rparr>) \<and>
      stop_inference_stage pt stage now
        = (Inl ValueError, pt\<lparr>timers := [InferenceTimer_init]\<rparr>)) \<and>
   (\<not> enabled pt \<longrightarrow>
      snd (reset pt) = pt \<and>
      snd (start_inference_stage pt stage now) = pt \<and>
      snd (stop_inference_stage pt stage now) = pt)"
  by (auto simp: reset_def start_inference_stage_def stop_inference_stage_def
      check_start_inference_eq current_inference_def Let_def clear_is_init
      InferenceTimer_init_def start_def stop_def contains_def getitem_def setitem_def)

theorem current_inference_and_first_call_witness:
  "enabled (PipelineTimer_init True True) \<and>
   timers (PipelineTimer_init True True) = [] \<and>
   timers (snd (reset (PipelineTimer_init True True)))
     = [InferenceTimer_init, InferenceTimer_init] \<and>
   stop_inference_stage (PipelineTimer_init True True) ''x'' 1
     = (Inl ValueError, (PipelineTimer_init True True)\<lparr>timers := [InferenceTimer_init]\<rparr>) \<and>
   \<not> enabled (PipelineTimer_init False True) \<and>
   snd (reset (PipelineTimer_init False True)) = PipelineTimer_init False True"
proof -
  have e: "enabled (PipelineTimer_init True True) \<and> timers (PipelineTimer_init True True) = []"
    by (simp add: PipelineTimer_init_def)
  have d: "\<not> enabled (PipelineTimer_init False True)"
    by (simp add: PipelineTimer_init_def)
  have m: "multi_inference (PipelineTimer_init True True)"
    by (simp add: PipelineTimer_init_def)
  from e current_inference_and_first_call
      [of "PipelineTimer_init True True" "[]" InferenceTimer_init "''x''" 1]
  have a: "timers (snd (reset (PipelineTimer_init True True)))
        = (if multi_inference (PipelineTimer_init True True)
           then [InferenceTimer_init, InferenceTimer_init] else [InferenceTimer_init]) \<and>
      stop_inference_stage (PipelineTimer_init True True) ''x'' 1
        = (Inl ValueError, (PipelineTimer_init True True)\<lparr>timers := [InferenceTimer_init]\<rparr>)"
    by blast
  from d current_inference_and_first_call
      [of "PipelineTimer_init False True" "[]" InferenceTimer_init "''x''" 1]
  have b: "snd (reset (PipelineTimer_init False True)) = PipelineTimer_init False True"
    by blast
  from a b e d m show ?thesis by simp
qed

subsection \<open>One snapshot per inference in multi-inference mode\<close>

lemma run_calls_append:
  "run_calls it (xs @ ys) =
     (fst (run_calls it xs) @ fst (run_calls (snd (run_calls it xs)) ys),
      snd (run_calls (snd (run_calls it xs)) ys))"
  by (induction xs arbitrary: it) (simp_all add: split_beta)

lemma run_pcalls_append:
  "run_pcalls pt (xs @ ys) =
     (fst (run_pcalls pt xs) @ fst (run_pcalls (snd (run_pcalls pt xs)) ys),
      snd (run_pcalls (snd (run_pcalls pt xs)) ys))"
  by (induction xs arbitrary: pt) (simp_all add: split_beta)

lemma all_balanced_init: "all_balanced InferenceTimer_init"
  by (simp add: all_balanced_def stage_ok_def num_starts_def num_stops_def InferenceTimer_init_def)

lemma record_one_new:
  assumes "map_of (staged_start_times it) s = None" "map_of (staged_stop_times it) s = None"
  shows "run_calls it [Start s t0, Stop s t1] =
     ([Inr (), Inr ()],
      it\<lparr>staged_start_times := AList.update s [t0] (AList.update s [] (staged_start_times it)),
         staged_stop_times := AList.update s [t1] (AList.update s [] (staged_stop_times it))\<rparr>)"
  by (simp add: start_def stop_def dict_defs update_conv' assms)

lemma record_one_old:
  assumes "map_of (staged_start_times it) s = Some ss" "map_of (staged_stop_times it) s = Some ps"
    "length ss = length ps"
  shows "run_calls it [Start s t0, Stop s t1] =
     ([Inr (), Inr ()],
      it\<lparr>staged_start_times := AList.update s (ss @ [t0]) (staged_start_times it),
         staged_stop_times := AList.update s (ps @ [t1]) (staged_stop_times it)\<rparr>)"
  by (simp add: start_def stop_def dict_defs update_conv' assms)

lemma record_one_maps:
  assumes "stage_ok it s" "num_starts it s = num_stops it s"
  shows "fst (run_calls it [Start s t0, Stop s t1]) = [Inr (), Inr ()] \<and>
     map_of (staged_start_times (snd (run_calls it [Start s t0, Stop s t1])))
       = (map_of (staged_start_times it))
           (s \<mapsto> (case map_of (staged_start_times it) s of None \<Rightarrow> [] | Some ss \<Rightarrow> ss) @ [t0]) \<and>
     map_of (staged_stop_times (snd (run_calls it [Start s t0, Stop s t1])))
       = (map_of (staged_stop_times it))
           (s \<mapsto> (case map_of (staged_stop_times it) s of None \<Rightarrow> [] | Some ps \<Rightarrow> ps) @ [t1])"
proof (cases "map_of (staged_start_times it) s")
  case None
  with assms(1) have n: "map_of (staged_stop_times it) s = None"
    by (simp add: stage_ok_def)
  show ?thesis
    unfolding record_one_new [OF None n] by (simp add: update_conv' None n)
next
  case (Some ss)
  with assms(1) obtain ps where p: "map_of (staged_stop_times it) s = Some ps"
    by (auto simp: stage_ok_def split: option.splits)
  from assms(2) Some p have l: "length ss = length ps"
    by (simp add: num_starts_def num_stops_def)
  show ?thesis
    unfolding record_one_old [OF Some p l] by (simp add: update_conv' Some p)
qed

lemma record_one_fst:
  assumes "all_balanced it"
  shows "fst (run_calls it [Start s t0, Stop s t1]) = [Inr (), Inr ()]"
proof -
  from assms have "stage_ok it s" "num_starts it s = num_stops it s"
    by (simp_all add: all_balanced_def)
  from record_one_maps [OF this] show ?thesis by blast
qed

lemma record_one_stage:
  assumes "stage_ok it s'" "num_starts it s' = num_stops it s'"
     "stage_ok it s" "num_starts it s = num_stops it s"
  shows "stage_ok (snd (run_calls it [Start s t0, Stop s t1])) s' \<and>
     num_starts (snd (run_calls it [Start s t0, Stop s t1])) s'
       = num_stops (snd (run_calls it [Start s t0, Stop s t1])) s' \<and>
     samples (snd (run_calls it [Start s t0, Stop s t1])) s'
       = samples it s' @ (if s' = s then [t1 - t0] else [])"
proof -
  define it' where "it' = snd (run_calls it [Start s t0, Stop s t1])"
  from record_one_maps [OF assms(3,4), of t0 t1]
  have a: "map_of (staged_start_times it')
       = (map_of (staged_start_times it))
           (s \<mapsto> (case map_of (staged_start_times it) s of None \<Rightarrow> [] | Some ss \<Rightarrow> ss) @ [t0])"
    and b: "map_of (staged_stop_times it')
       = (map_of (staged_stop_times it))
           (s \<mapsto> (case map_of (staged_stop_times it) s of None \<Rightarrow> [] | Some ps \<Rightarrow> ps) @ [t1])"
    unfolding it'_def by blast+
  have "stage_ok it' s' \<and> num_starts it' s' = num_stops it' s' \<and>
     samples it' s' = samples it s' @ (if s' = s then [t1 - t0] else [])"
    using assms(1,2)
    by (cases "s' = s")
       (auto simp: stage_ok_def num_starts_def num_stops_def samples_def a b split: option.splits)
  then show ?thesis unfolding it'_def .
qed

lemma record_one_balanced:
  "all_balanced it \<Longrightarrow> all_balanced (snd (run_calls it [Start s t0, Stop s t1]))"
  using record_one_stage unfolding all_balanced_def by blast

lemma record_one_samples:
  "all_balanced it \<Longrightarrow>
     samples (snd (run_calls it [Start s t0, Stop s t1])) s'
       = samples it s' @ (if s' = s then [t1 - t0] else [])"
  using record_one_stage unfolding all_balanced_def by blast

lemma sample_calls_Cons:
  "sample_calls ((s, t0, t1) # ss) = [Start s t0, Stop s t1] @ sample_calls ss"
  by (simp add: sample_calls_def)

lemma record_all:
  "all_balanced it \<Longrightarrow>
     fst (run_calls it (sample_calls ss)) = replicate (2 * length ss) (Inr ()) \<and>
     all_balanced (snd (run_calls it (sample_calls ss))) \<and>
     samples (snd (run_calls it (sample_calls ss))) s' = samples it s' @ durations ss s'"
proof (induction ss arbitrary: it)
  case Nil
  then show ?case by (simp add: sample_calls_def durations_def)
next
  case (Cons x ss)
  obtain s t0 t1 where x: "x = (s, t0, t1)" by (cases x) auto
  let ?it1 = "snd (run_calls it [Start s t0, Stop s t1])"
  have b1: "all_balanced ?it1" using Cons.prems by (rule record_one_balanced)
  have f1: "fst (run_calls it [Start s t0, Stop s t1]) = [Inr (), Inr ()]"
    using Cons.prems by (rule record_one_fst)
  have s1: "samples ?it1 s' = samples it s' @ (if s' = s then [t1 - t0] else [])"
    using Cons.prems by (rule record_one_samples)
  note ih = Cons.IH [OF b1]
  have r: "run_calls it (sample_calls (x # ss)) =
     (fst (run_calls it [Start s t0, Stop s t1]) @ fst (run_calls ?it1 (sample_calls ss)),
      snd (run_calls ?it1 (sample_calls ss)))"
    unfolding x sample_calls_Cons by (rule run_calls_append)
  show ?case
    unfolding r using ih f1 s1 by (simp add: x durations_def)
qed

lemma snapshot_of_samples: "samples (snapshot_of ss) stage = durations ss stage"
  using record_all [OF all_balanced_init, of ss stage]
  by (simp add: snapshot_of_def samples_def InferenceTimer_init_def)


lemma start_inference_stage_last:
  "enabled pt \<Longrightarrow> timers pt = ts @ [t] \<Longrightarrow>
     start_inference_stage pt s now = (fst (start t s now), pt\<lparr>timers := ts @ [snd (start t s now)]\<rparr>)"
  by (simp add: start_inference_stage_def check_start_inference_eq split_beta)

lemma stop_inference_stage_last:
  "enabled pt \<Longrightarrow> timers pt = ts @ [t] \<Longrightarrow>
     stop_inference_stage pt s now = (fst (stop t s now), pt\<lparr>timers := ts @ [snd (stop t s now)]\<rparr>)"
  by (simp add: stop_inference_stage_def check_start_inference_eq split_beta)

lemma record_samples_last:
  "enabled pt \<Longrightarrow> timers pt = ts @ [t] \<Longrightarrow>
     run_pcalls pt (record_samples ss) =
       (fst (run_calls t (sample_calls ss)),
        pt\<lparr>timers := ts @ [snd (run_calls t (sample_calls ss))]\<rparr>)"
proof (induction ss arbitrary: pt t)
  case Nil
  then show ?case by (simp add: record_samples_def sample_calls_def)
next
  case (Cons x ss)
  obtain s t0 t1 where x: "x = (s, t0, t1)" by (cases x) auto
  let ?t1 = "snd (start t s t0)"
  let ?t2 = "snd (stop ?t1 s t1)"
  let ?pt1 = "pt\<lparr>timers := ts @ [?t1]\<rparr>"
  let ?pt2 = "pt\<lparr>timers := ts @ [?t2]\<rparr>"
  have a: "start_inference_stage pt s t0 = (fst (start t s t0), ?pt1)"
    using Cons.prems by (rule start_inference_stage_last)
  have "enabled ?pt1" "timers ?pt1 = ts @ [?t1]" using Cons.prems by simp_all
  then have "stop_inference_stage ?pt1 s t1 = (fst (stop ?t1 s t1), ?pt1\<lparr>timers := ts @ [?t2]\<rparr>)"
    by (rule stop_inference_stage_last)
  then have b: "stop_inference_stage ?pt1 s t1 = (fst (stop ?t1 s t1), ?pt2)" by simp
  have "enabled ?pt2" "timers ?pt2 = ts @ [?t2]" using Cons.prems by simp_all
  from Cons.IH [OF this]
  have c: "run_pcalls ?pt2 (record_samples ss) =
       (fst (run_calls ?t2 (sample_calls ss)),
        pt\<lparr>timers := ts @ [snd (run_calls ?t2 (sample_calls ss))]\<rparr>)"
    by simp
  have d: "record_samples (x # ss) = StartStage s t0 # StopStage s t1 # record_samples ss"
    by (simp add: record_samples_def x)
  have e: "sample_calls (x # ss) = Start s t0 # Stop s t1 # sample_calls ss"
    by (simp add: sample_calls_def x)
  show ?case
    unfolding d e by (simp add: a b c split_beta)
qed

lemma inference_runs_Cons:
  "inference_runs (ss # runs) = (Reset # record_samples ss) @ inference_runs runs"
  by (simp add: inference_runs_def)

lemma first_run:
  assumes "enabled pt" "multi_inference pt"
  shows "run_pcalls pt (Reset # record_samples ss) =
      (replicate (Suc (2 * length ss)) (Inr ()),
       pt\<lparr>timers := (if timers pt = [] then [InferenceTimer_init] else timers pt)
                        @ [snapshot_of ss]\<rparr>)"
proof -
  let ?ts = "if timers pt = [] then [InferenceTimer_init] else timers pt"
  let ?pt1 = "pt\<lparr>timers := ?ts @ [InferenceTimer_init]\<rparr>"
  have r: "reset pt = (Inr (), ?pt1)"
    using assms by (simp add: reset_def check_start_inference_eq)
  have "enabled ?pt1" "timers ?pt1 = ?ts @ [InferenceTimer_init]" using assms by simp_all
  from record_samples_last [OF this]
  have "run_pcalls ?pt1 (record_samples ss) =
       (fst (run_calls InferenceTimer_init (sample_calls ss)), pt\<lparr>timers := ?ts @ [snapshot_of ss]\<rparr>)"
    by (simp add: snapshot_of_def)
  moreover have "fst (run_calls InferenceTimer_init (sample_calls ss)) = replicate (2 * length ss) (Inr ())"
    using record_all [OF all_balanced_init] by simp
  ultimately show ?thesis using r by simp
qed

lemma all_runs:
  assumes "enabled pt" "multi_inference pt" "timers pt \<noteq> []"
  shows "snd (run_pcalls pt (inference_runs runs)) = pt\<lparr>timers := timers pt @ map snapshot_of runs\<rparr> \<and>
         (\<forall>r \<in> set (fst (run_pcalls pt (inference_runs runs))). r = Inr ())"
  using assms
proof (induction runs arbitrary: pt)
  case Nil
  then show ?case by (simp add: inference_runs_def)
next
  case (Cons ss runs)
  let ?pt1 = "pt\<lparr>timers := timers pt @ [snapshot_of ss]\<rparr>"
  have f: "run_pcalls pt (Reset # record_samples ss) = (replicate (Suc (2 * length ss)) (Inr ()), ?pt1)"
    using first_run [OF Cons.prems(1,2), of ss] Cons.prems(3) by simp
  have "enabled ?pt1" "multi_inference ?pt1" "timers ?pt1 \<noteq> []" using Cons.prems by simp_all
  note ih = Cons.IH [OF this]
  show ?case
    unfolding inference_runs_Cons run_pcalls_append f using ih by auto
qed

text \<open>
  C6, as stated: on a fresh multi-inference \<^verbatim>\<open>PipelineTimer\<close>, N calls of \<^verbatim>\<open>reset()\<close>,
  each followed by the recording of samples, leave exactly N snapshots. With N = 2, one
  sample of stage \<^verbatim>\<open>x\<close> after each \<^verbatim>\<open>reset()\<close>, the code leaves three: the empty timer
  that the first \<^verbatim>\<open>reset()\<close> creates before it appends its own, and one per \<^verbatim>\<open>reset()\<close>.
\<close>

theorem multi_inference_counterexample:
  "length (inferences (snd (run_pcalls (PipelineTimer_init True True)
       [Reset, StartStage ''x'' 1, StopStage ''x'' 2,
        Reset, StartStage ''x'' 3, StopStage ''x'' 5]))) = 3 \<and>
   inferences (snd (run_pcalls (PipelineTimer_init True True)
       [Reset, StartStage ''x'' 1, StopStage ''x'' 2,
        Reset, StartStage ''x'' 3, StopStage ''x'' 5]))
     = [InferenceTimer_init,
        \<lparr>staged_start_times = [(''x'', [1])], staged_stop_times = [(''x'', [2])]\<rparr>,
        \<lparr>staged_start_times = [(''x'', [3])], staged_stop_times = [(''x'', [5])]\<rparr>]"
  by (simp add: PipelineTimer_init_def inferences_def reset_def start_inference_stage_def
      stop_inference_stage_def check_start_inference_def current_inference_def
      InferenceTimer_init_def start_def stop_def dict_defs)

text \<open>
  C6, amended: on a fresh, enabled multi-inference \<^verbatim>\<open>PipelineTimer\<close>, N \<ge> 1 calls of
  \<^verbatim>\<open>reset()\<close>, each followed by the recording of samples (a start and a stop of a stage
  for each sample), all return without raising and leave exactly N + 1 snapshots: an
  empty one, created by \<^verbatim>\<open>_check_start_inference\<close> in the first \<^verbatim>\<open>reset()\<close>, followed by
  one snapshot per \<^verbatim>\<open>reset()\<close>, which is what the samples recorded after that \<^verbatim>\<open>reset()\<close>
  leave on a fresh timer and holds the durations of these samples only.
\<close>

theorem multi_inference_snapshots:
  assumes "runs \<noteq> []"
  shows "(\<forall>r \<in> set (fst (run_pcalls (PipelineTimer_init True True) (inference_runs runs))). r = Inr ()) \<and>
     inferences (snd (run_pcalls (PipelineTimer_init True True) (inference_runs runs)))
       = InferenceTimer_init # map snapshot_of runs \<and>
     length (inferences (snd (run_pcalls (PipelineTimer_init True True) (inference_runs runs))))
       = length runs + 1 \<and>
     (\<forall>ss \<in> set runs. \<forall>stage. samples (snapshot_of ss) stage = durations ss stage)"
proof -
  let ?pt = "PipelineTimer_init True True"
  obtain ss rest where runs: "runs = ss # rest" using assms by (cases runs) auto
  let ?pt1 = "?pt\<lparr>timers := [InferenceTimer_init, snapshot_of ss]\<rparr>"
  have en: "enabled ?pt" "multi_inference ?pt" by (simp_all add: PipelineTimer_init_def)
  have f: "run_pcalls ?pt (Reset # record_samples ss) = (replicate (Suc (2 * length ss)) (Inr ()), ?pt1)"
    using first_run [OF en, of ss] by (simp add: PipelineTimer_init_def)
  have "enabled ?pt1" "multi_inference ?pt1" "timers ?pt1 \<noteq> []" using en by simp_all
  note rest = all_runs [OF this, of rest]
  have "snd (run_pcalls ?pt (inference_runs runs)) = ?pt\<lparr>timers := InferenceTimer_init # map snapshot_of runs\<rparr>"
    unfolding runs inference_runs_Cons run_pcalls_append f using rest by simp
  moreover have "\<forall>r \<in> set (fst (run_pcalls ?pt (inference_runs runs))). r = Inr ()"
    unfolding runs inference_runs_Cons run_pcalls_append f using rest by auto
  ultimately show ?thesis
    by (simp add: inferences_def snapshot_of_samples)
qed

theorem multi_inference_snapshots_witness:
  "[[(''x'', 1, 2)], [(''x'', 3, 5), (''y'', 4, 8), (''x'', 6, 10)]] \<noteq> [] \<and>
   inference_runs [[(''x'', 1, 2)], [(''x'', 3, 5), (''y'', 4, 8), (''x'', 6, 10)]]
     = [Reset, StartStage ''x'' 1, StopStage ''x'' 2,
        Reset, StartStage ''x'' 3, StopStage ''x'' 5, StartStage ''y'' 4, StopStage ''y'' 8,
        StartStage ''x'' 6, StopStage ''x'' 10] \<and>
   length (inferences (snd (run_pcalls (PipelineTimer_init True True)
     (inference_runs [[(''x'', 1, 2)], [(''x'', 3, 5), (''y'', 4, 8), (''x'', 6, 10)]])))) = 3 \<and>
   samples (snapshot_of [(''x'', 3, 5), (''y'', 4, 8), (''x'', 6, 10)]) ''x'' = [2, 4]"
proof -
  let ?runs = "[[(''x'', 1, 2)], [(''x'', 3, 5), (''y'', 4, 8), (''x'', 6, 10)]]
                 :: (stage \<times> real \<times> real) list list"
  have ne: "?runs \<noteq> []" by simp
  have d: "durations [(''x'', 3, 5), (''y'', 4, 8), (''x'', 6, 10)] ''x'' = [2, 4]"
    by (simp add: durations_def)
  have r: "inference_runs ?runs
     = [Reset, StartStage ''x'' 1, StopStage ''x'' 2,
        Reset, StartStage ''x'' 3, StopStage ''x'' 5, StartStage ''y'' 4, StopStage ''y'' 8,
        StartStage ''x'' 6, StopStage ''x'' 10]"
    by (simp add: inference_runs_def record_samples_def)
  from multi_inference_snapshots [OF ne]
  have "length (inferences (snd (run_pcalls (PipelineTimer_init True True) (inference_runs ?runs))))
          = length ?runs + 1 \<and>
        samples (snapshot_of [(''x'', 3, 5), (''y'', 4, 8), (''x'', 6, 10)]) ''x''
          = durations [(''x'', 3, 5), (''y'', 4, 8), (''x'', 6, 10)] ''x''"
    by simp
  then show ?thesis
    unfolding d using ne r by simp
qed

subsection \<open>Aggregated times\<close>

text \<open>
  A timer that calls of \<^verbatim>\<open>start\<close>, \<^verbatim>\<open>stop\<close> and \<^verbatim>\<open>clear\<close> have produced from a fresh
  one, and in which every stage has as many stops as starts, is balanced.
\<close>

lemma reachable_balanced:
  assumes "it = snd (run_calls InferenceTimer_init cs)"
    and "\<forall>s. num_starts it s = num_stops it s"
  shows "balanced it"
  using assms wf_timer_reachable [of cs] by (simp add: balanced_def wf_timer_def)

lemma index_map_zip:
  "length ss = length ps \<Longrightarrow>
     map (\<lambda>i. ps ! i - ss ! i) [0..<length ss] = map (\<lambda>(a, b). b - a) (zip ss ps)"
  by (rule nth_equalityI) simp_all

lemma in_stages_iff: "s \<in> set (InferenceTimer_stages it) \<longleftrightarrow> map_of (staged_start_times it) s \<noteq> None"
  by (simp add: InferenceTimer_stages_def map_of_eq_None_iff)

lemma samples_not_stage: "s \<notin> set (InferenceTimer_stages it) \<Longrightarrow> samples it s = []"
  by (simp add: in_stages_iff samples_def)

lemma stage_times_balanced:
  assumes "s \<in> set (InferenceTimer_stages it)" "stage_ok it s" "num_starts it s = num_stops it s"
  shows "stage_times it s = Inr (samples it s) \<and> samples it s \<noteq> []"
proof -
  from assms(1) obtain ss where ss: "map_of (staged_start_times it) s = Some ss"
    by (auto simp: in_stages_iff)
  with assms(2) obtain ps where ps: "map_of (staged_stop_times it) s = Some ps" and ne: "ss \<noteq> []"
    by (auto simp: stage_ok_def split: option.splits)
  from assms(3) ss ps have l: "length ss = length ps"
    by (simp add: num_starts_def num_stops_def)
  with ne have z: "zip ss ps \<noteq> []" by (cases ss; cases ps) auto
  have st: "stage_times it s = Inr (map (\<lambda>i. ps ! i - ss ! i) [0..<length ss])"
    by (simp add: stage_times_def dict_defs ss ps l)
  have sa: "samples it s = map (\<lambda>(a, b). b - a) (zip ss ps)"
    by (simp add: samples_def ss ps)
  show ?thesis
    unfolding st sa index_map_zip [OF l] using z by simp
qed

lemma dict_comp_ok:
  "\<forall>k \<in> set ks. f k = Inr (g k) \<Longrightarrow>
     \<exists>d. dict_comp f acc ks = Inr d \<and>
         map_of d = (\<lambda>s. if s \<in> set ks then Some (g s) else map_of acc s) \<and>
         (distinct (map fst acc) \<longrightarrow> distinct (map fst d))"
proof (induction ks arbitrary: acc)
  case Nil
  then show ?case by simp
next
  case (Cons k ks)
  from Cons.prems have fk: "f k = Inr (g k)" and rest: "\<forall>k \<in> set ks. f k = Inr (g k)"
    by simp_all
  from Cons.IH [OF rest, of "setitem acc k (g k)"]
  obtain d where d: "dict_comp f (setitem acc k (g k)) ks = Inr d"
    and m: "map_of d = (\<lambda>s. if s \<in> set ks then Some (g s) else map_of (setitem acc k (g k)) s)"
    and di: "distinct (map fst (setitem acc k (g k))) \<longrightarrow> distinct (map fst d)"
    by blast
  have "dict_comp f acc (k # ks) = Inr d" by (simp add: fk d)
  moreover have "map_of d = (\<lambda>s. if s \<in> set (k # ks) then Some (g s) else map_of acc s)"
    unfolding m by (auto simp: setitem_def update_conv' fun_eq_iff)
  moreover have "distinct (map fst acc) \<longrightarrow> distinct (map fst d)"
    using di by (simp add: setitem_def distinct_update)
  ultimately show ?case by blast
qed

lemma dict_comp_ok_empty:
  assumes "\<forall>k \<in> set ks. f k = Inr (g k)"
  shows "\<exists>d. dict_comp f [] ks = Inr d \<and> distinct (map fst d) \<and>
         map_of d = (\<lambda>s. if s \<in> set ks then Some (g s) else None)"
proof -
  from dict_comp_ok [OF assms, of "[]"]
  obtain d where "dict_comp f [] ks = Inr d" "distinct (map fst d)"
    and m: "map_of d = (\<lambda>s. if s \<in> set ks then Some (g s) else map_of [] s)"
    by auto
  moreover from m have "map_of d = (\<lambda>s. if s \<in> set ks then Some (g s) else None)"
    by (simp cong: if_cong)
  ultimately show ?thesis by blast
qed

lemma all_times_balanced:
  assumes "balanced it"
  shows "\<exists>d. InferenceTimer_all_times it = Inr d \<and> distinct (map fst d) \<and>
           map_of d = (\<lambda>s. if s \<in> set (InferenceTimer_stages it) then Some (samples it s) else None)"
proof -
  have "\<forall>k \<in> set (InferenceTimer_stages it). stage_times it k = Inr (samples it k)"
    using assms stage_times_balanced by (simp add: balanced_def)
  from dict_comp_ok_empty [OF this] show ?thesis
    by (simp add: InferenceTimer_all_times_def)
qed

lemma extend_items_ok:
  "distinct (map fst d) \<Longrightarrow> \<forall>k \<in> fst ` set d. map_of acc k \<noteq> None \<Longrightarrow>
     \<exists>acc'. extend_items acc d = Inr acc' \<and>
       map_of acc' = (\<lambda>s. case map_of acc s of
                            None \<Rightarrow> None
                          | Some cur \<Rightarrow> Some (cur @ (case map_of d s of None \<Rightarrow> [] | Some ts \<Rightarrow> ts)))"
proof (induction d arbitrary: acc)
  case Nil
  then show ?case by (auto simp: fun_eq_iff split: option.splits)
next
  case (Cons x d)
  obtain k ts where x: "x = (k, ts)" by (cases x) auto
  from Cons.prems(2) x obtain cur where cur: "map_of acc k = Some cur" by auto
  let ?acc1 = "setitem acc k (cur @ ts)"
  from Cons.prems(1) x have dd: "distinct (map fst d)" and kd: "map_of d k = None"
    by (simp_all add: map_of_eq_None_iff)
  have "\<forall>k' \<in> fst ` set d. map_of ?acc1 k' \<noteq> None"
    using Cons.prems(2) by (auto simp: setitem_def update_conv')
  from Cons.IH [OF dd this]
  obtain acc' where r: "extend_items ?acc1 d = Inr acc'"
    and m: "map_of acc' = (\<lambda>s. case map_of ?acc1 s of
                            None \<Rightarrow> None
                          | Some c \<Rightarrow> Some (c @ (case map_of d s of None \<Rightarrow> [] | Some ts \<Rightarrow> ts)))"
    by blast
  have "extend_items acc (x # d) = Inr acc'"
    by (simp add: x getitem_def cur r)
  moreover have "map_of acc' = (\<lambda>s. case map_of acc s of
                            None \<Rightarrow> None
                          | Some c \<Rightarrow> Some (c @ (case map_of (x # d) s of None \<Rightarrow> [] | Some ts \<Rightarrow> ts)))"
    unfolding m by (auto simp: x setitem_def update_conv' fun_eq_iff cur kd split: option.splits)
  ultimately show ?case by blast
qed

lemma extend_timers_ok:
  "\<forall>it \<in> set ts. balanced it \<and> (\<forall>s \<in> set (InferenceTimer_stages it). map_of acc s \<noteq> None) \<Longrightarrow>
     \<exists>acc'. extend_timers acc ts = Inr acc' \<and>
       map_of acc' = (\<lambda>s. case map_of acc s of
                            None \<Rightarrow> None
                          | Some cur \<Rightarrow> Some (cur @ concat (map (\<lambda>it. samples it s) ts)))"
proof (induction ts arbitrary: acc)
  case Nil
  then show ?case by (auto simp: fun_eq_iff split: option.splits)
next
  case (Cons it ts)
  from Cons.prems have b: "balanced it"
    and keys: "\<forall>s \<in> set (InferenceTimer_stages it). map_of acc s \<noteq> None"
    by simp_all
  from all_times_balanced [OF b]
  obtain d where d: "InferenceTimer_all_times it = Inr d" and dd: "distinct (map fst d)"
    and md: "map_of d = (\<lambda>s. if s \<in> set (InferenceTimer_stages it) then Some (samples it s) else None)"
    by blast
  have contrib: "(case map_of d s of None \<Rightarrow> [] | Some ts \<Rightarrow> ts) = samples it s" for s
    by (simp add: md samples_not_stage)
  have "\<forall>k \<in> fst ` set d. map_of acc k \<noteq> None"
  proof
    fix k assume "k \<in> fst ` set d"
    then have "map_of d k \<noteq> None" by (simp add: map_of_eq_None_iff)
    then have "k \<in> set (InferenceTimer_stages it)" by (simp add: md split: if_splits)
    with keys show "map_of acc k \<noteq> None" by simp
  qed
  from extend_items_ok [OF dd this]
  obtain acc1 where e: "extend_items acc d = Inr acc1"
    and m1: "map_of acc1 = (\<lambda>s. case map_of acc s of
                            None \<Rightarrow> None
                          | Some cur \<Rightarrow> Some (cur @ samples it s))"
    unfolding contrib by blast
  have "\<forall>it \<in> set ts. balanced it \<and> (\<forall>s \<in> set (InferenceTimer_stages it). map_of acc1 s \<noteq> None)"
    using Cons.prems by (auto simp: m1 split: option.splits)
  from Cons.IH [OF this]
  obtain acc' where r: "extend_timers acc1 ts = Inr acc'"
    and m: "map_of acc' = (\<lambda>s. case map_of acc1 s of
                            None \<Rightarrow> None
                          | Some cur \<Rightarrow> Some (cur @ concat (map (\<lambda>it. samples it s) ts)))"
    by blast
  have "extend_timers acc (it # ts) = Inr acc'" by (simp add: d e r)
  moreover have "map_of acc' = (\<lambda>s. case map_of acc s of
                            None \<Rightarrow> None
                          | Some cur \<Rightarrow> Some (cur @ concat (map (\<lambda>it. samples it s) (it # ts))))"
    unfolding m m1 by (auto simp: fun_eq_iff split: option.splits)
  ultimately show ?case by blast
qed

lemma in_pipeline_stages:
  "s \<in> set (PipelineTimer_stages pt) \<longleftrightarrow> (\<exists>it \<in> set (timers pt). s \<in> set (InferenceTimer_stages it))"
  by (auto simp: PipelineTimer_stages_def)

lemma pipeline_all_times_ok:
  assumes "\<forall>it \<in> set (timers pt). balanced it"
  shows "\<exists>a. PipelineTimer_all_times pt = Inr a \<and>
           map_of a = (\<lambda>s. if s \<in> set (PipelineTimer_stages pt)
                           then Some (merged_samples pt s) else None)"
proof -
  have "\<forall>k \<in> set (PipelineTimer_stages pt). (Inr [] :: error + real list) = Inr []"
    by simp
  from dict_comp_ok_empty [of "PipelineTimer_stages pt" "\<lambda>stage. Inr []" "\<lambda>stage. []", OF this]
  obtain acc :: "real list dict"
    where acc: "dict_comp (\<lambda>stage. Inr []) [] (PipelineTimer_stages pt) = Inr acc"
    and ma: "map_of acc = (\<lambda>s. if s \<in> set (PipelineTimer_stages pt) then Some [] else None)"
    by blast
  have "\<forall>it \<in> set (timers pt).
          balanced it \<and> (\<forall>s \<in> set (InferenceTimer_stages it). map_of acc s \<noteq> None)"
    using assms by (auto simp: ma in_pipeline_stages)
  from extend_timers_ok [OF this]
  obtain a where a: "extend_timers acc (timers pt) = Inr a"
    and m: "map_of a = (\<lambda>s. case map_of acc s of
                            None \<Rightarrow> None
                          | Some cur \<Rightarrow> Some (cur @ concat (map (\<lambda>it. samples it s) (timers pt))))"
    by blast
  have "PipelineTimer_all_times pt = Inr a"
    by (simp add: PipelineTimer_all_times_def acc a)
  moreover have "map_of a = (\<lambda>s. if s \<in> set (PipelineTimer_stages pt)
                           then Some (merged_samples pt s) else None)"
    unfolding m ma by (auto simp: fun_eq_iff merged_samples_def)
  ultimately show ?thesis by blast
qed

lemma merged_samples_nonempty:
  assumes "\<forall>it \<in> set (timers pt). balanced it" "s \<in> set (PipelineTimer_stages pt)"
  shows "merged_samples pt s \<noteq> []"
proof -
  from assms(2) obtain it where it: "it \<in> set (timers pt)" "s \<in> set (InferenceTimer_stages it)"
    by (auto simp: in_pipeline_stages)
  with assms(1) have "samples it s \<noteq> []"
    using stage_times_balanced by (simp add: balanced_def)
  with it(1) show ?thesis by (auto simp: merged_samples_def)
qed

text \<open>
  C1: when every timer tracked by a \<^verbatim>\<open>PipelineTimer\<close> is balanced, \<^verbatim>\<open>times\<close> returns a
  dict whose keys are the stages of the tracked timers and which gives each stage the sum
  of its duration samples merged over all tracked timers divided by the number of these
  samples. With one sample of a stage in one timer and two in another, this is the mean
  of the three samples, which differs from the mean of the two per-timer averages (the
  instance that follows the theorem).
\<close>

theorem aggregate_times_merges_samples:
  assumes "\<forall>it \<in> set (timers pt). balanced it"
  shows "\<exists>d. PipelineTimer_times pt = Inr d \<and>
           set (map fst d) = set (PipelineTimer_stages pt) \<and>
           (\<forall>stage \<in> set (PipelineTimer_stages pt).
              merged_samples pt stage \<noteq> [] \<and>
              map_of d stage
                = Some (sum_list (merged_samples pt stage) / real (length (merged_samples pt stage))))"
proof -
  from pipeline_all_times_ok [OF assms]
  obtain a where a: "PipelineTimer_all_times pt = Inr a"
    and ma: "map_of a = (\<lambda>s. if s \<in> set (PipelineTimer_stages pt)
                           then Some (merged_samples pt s) else None)"
    by blast
  let ?f = "\<lambda>stage. case getitem a stage of Inl e \<Rightarrow> Inl e | Inr ts \<Rightarrow> average ts"
  let ?g = "\<lambda>stage. sum_list (merged_samples pt stage) / real (length (merged_samples pt stage))"
  have "\<forall>k \<in> set (PipelineTimer_stages pt). ?f k = Inr (?g k)"
    using merged_samples_nonempty [OF assms] by (simp add: getitem_def ma average_def)
  from dict_comp_ok_empty [OF this]
  obtain d where d: "dict_comp ?f [] (PipelineTimer_stages pt) = Inr d"
    and md: "map_of d = (\<lambda>s. if s \<in> set (PipelineTimer_stages pt) then Some (?g s) else None)"
    by blast
  have t: "PipelineTimer_times pt = Inr d"
    by (simp add: PipelineTimer_times_def a d)
  have "fst ` set d = dom (map_of d)" by (simp add: dom_map_of_conv_image_fst)
  also have "\<dots> = set (PipelineTimer_stages pt)" unfolding md by (auto split: if_splits)
  finally have k: "set (map fst d) = set (PipelineTimer_stages pt)" by simp
  from t k md merged_samples_nonempty [OF assms] show ?thesis by auto
qed

theorem aggregate_times_merges_samples_witness:
  "PipelineTimer_times \<lparr>multi_inference = True, enabled = True, timers =
       [\<lparr>staged_start_times = [(''x'', [0])], staged_stop_times = [(''x'', [1])]\<rparr>,
        \<lparr>staged_start_times = [(''x'', [10, 20]), (''y'', [30])],
         staged_stop_times = [(''x'', [12, 23]), (''y'', [34])]\<rparr>]\<rparr>
     = Inr [(''x'', 2), (''y'', 4)] \<and>
   stage_average_time
       \<lparr>staged_start_times = [(''x'', [0])], staged_stop_times = [(''x'', [1])]\<rparr> ''x''
     = Inr 1 \<and>
   stage_average_time
       \<lparr>staged_start_times = [(''x'', [10, 20]), (''y'', [30])],
        staged_stop_times = [(''x'', [12, 23]), (''y'', [34])]\<rparr> ''x''
     = Inr (5 / 2) \<and>
   (1 + 5 / 2) / 2 \<noteq> (2 :: real)"
proof -
  let ?a = "\<lparr>staged_start_times = [(''x'', [0::real])], staged_stop_times = [(''x'', [1::real])]\<rparr>"
  let ?b = "\<lparr>staged_start_times = [(''x'', [10, 20::real]), (''y'', [30])],
             staged_stop_times = [(''x'', [12, 23::real]), (''y'', [34])]\<rparr>"
  let ?pt = "\<lparr>multi_inference = True, enabled = True, timers = [?a, ?b]\<rparr>"
  have bal: "\<forall>it \<in> set (timers ?pt). balanced it"
    by (simp add: balanced_def InferenceTimer_stages_def stage_ok_def num_starts_def num_stops_def)
  have st: "PipelineTimer_stages ?pt = [''x'', ''y'']"
    by (simp add: PipelineTimer_stages_def InferenceTimer_stages_def)
  have mx: "merged_samples ?pt ''x'' = [1, 2, 3]" and my: "merged_samples ?pt ''y'' = [4]"
    by (simp_all add: merged_samples_def samples_def)
  from aggregate_times_merges_samples [OF bal]
  obtain d where d: "PipelineTimer_times ?pt = Inr d"
    and k: "set (map fst d) = set (PipelineTimer_stages ?pt)"
    and v: "\<forall>stage \<in> set (PipelineTimer_stages ?pt).
              map_of d stage
                = Some (sum_list (merged_samples ?pt stage) / real (length (merged_samples ?pt stage)))"
    by blast
  from v have vx: "map_of d ''x'' = Some 2" and vy: "map_of d ''y'' = Some 4"
    unfolding st by (simp_all add: mx my)
  have ta: "stage_times ?a ''x'' = Inr [1]"
    by (simp add: stage_times_def dict_defs)
  have tb: "stage_times ?b ''x'' = Inr [2, 3]"
    by (simp add: stage_times_def dict_defs)
  have tby: "stage_times ?b ''y'' = Inr [4]"
    by (simp add: stage_times_def dict_defs)
  have aa: "InferenceTimer_all_times ?a = Inr [(''x'', [1])]"
    by (simp add: InferenceTimer_all_times_def InferenceTimer_stages_def ta setitem_def)
  have ab: "InferenceTimer_all_times ?b = Inr [(''x'', [2, 3]), (''y'', [4])]"
    by (simp add: InferenceTimer_all_times_def InferenceTimer_stages_def tb tby setitem_def)
  have all: "PipelineTimer_all_times ?pt = Inr [(''x'', [1, 2, 3]), (''y'', [4])]"
    by (simp add: PipelineTimer_all_times_def st aa ab dict_defs)
  have e: "PipelineTimer_times ?pt = Inr [(''x'', 2), (''y'', 4)]"
    by (simp add: PipelineTimer_times_def all st dict_defs average_def)
  have sa: "stage_average_time ?a ''x'' = Inr 1"
    by (simp add: stage_average_time_def ta average_def)
  have sb: "stage_average_time ?b ''x'' = Inr (5 / 2)"
    by (simp add: stage_average_time_def tb average_def)
  from d e vx vy sa sb show ?thesis by simp
qed

end
